theory Spec2Isabelle
  imports Main "HOL-Library.Multiset"
begin

section \<open>The directory tree and its traversal\<close>

text \<open>
  The script reads the file system through \<^verbatim>\<open>os.walk\<close> only. A directory entry is
  a regular file or a directory; a directory holds its entries by name, in the order in
  which \<^verbatim>\<open>scandir\<close> reports them. Symbolic links and unreadable directories are not
  part of the model.
\<close>

datatype node = File | Dir "(string \<times> node) list"

text \<open>What a path given on the command line resolves to: nothing, a file or a directory.\<close>

type_synonym filesystem = "string \<Rightarrow> node option"

fun is_dir :: "node \<Rightarrow> bool" where
  "is_dir File = False"
| "is_dir (Dir es) = True"

text \<open>
  \<^verbatim>\<open>os.path.join(path, b)\<close> of \<^verbatim>\<open>posixpath\<close>, for one component:
  \<^verbatim>\<open>
  if b.startswith(sep):            path = b
  elif not path or path.endswith(sep): path += b
  else:                            path += sep + b
  \<close>
\<close>

definition sep :: char where
  "sep = CHR ''/''"

definition startswith_sep :: "string \<Rightarrow> bool" where
  "startswith_sep b = (case b of [] \<Rightarrow> False | c # _ \<Rightarrow> c = sep)"

definition endswith_sep :: "string \<Rightarrow> bool" where
  "endswith_sep path = (case rev path of [] \<Rightarrow> False | c # _ \<Rightarrow> c = sep)"

definition join :: "string \<Rightarrow> string \<Rightarrow> string" where
  "join path b =
     (if startswith_sep b then b
      else if path = [] \<or> endswith_sep path then path @ b
      else path @ [sep] @ b)"

text \<open>
  \<^verbatim>\<open>os.walk(top)\<close> with its defaults (top-down, \<^verbatim>\<open>onerror=None\<close>): a top that
  cannot be scanned yields nothing; a directory yields its own triple
  \<^verbatim>\<open>(top, dirs, nondirs)\<close> first and then the walks of its subdirectories, each
  under the joined path, in the order of \<^verbatim>\<open>dirs\<close>.
\<close>

definition dirs_of :: "(string \<times> node) list \<Rightarrow> string list" where
  "dirs_of es = map fst (filter (\<lambda>e. is_dir (snd e)) es)"

definition nondirs_of :: "(string \<times> node) list \<Rightarrow> string list" where
  "nondirs_of es = map fst (filter (\<lambda>e. \<not> is_dir (snd e)) es)"

fun os_walk :: "string \<Rightarrow> node \<Rightarrow> (string \<times> string list \<times> string list) list" where
  "os_walk top_path File = []"
| "os_walk top_path (Dir es) =
     (top_path, dirs_of es, nondirs_of es) #
     concat (map (\<lambda>e. os_walk (join top_path (fst e)) (snd e)) (filter (\<lambda>e. is_dir (snd e)) es))"

definition walk :: "filesystem \<Rightarrow> string \<Rightarrow> (string \<times> string list \<times> string list) list" where
  "walk fs top_path = (case fs top_path of None \<Rightarrow> [] | Some n \<Rightarrow> os_walk top_path n)"

text \<open>
  \<^verbatim>\<open>
  def get_all_directories(directory):
      directories = []
      for root, dirs, _ in os.walk(directory):
          for dir in dirs:
              directories.append(os.path.join(root, dir))
      return directories
  \<close>
\<close>

definition append_dirs :: "string list \<Rightarrow> string \<times> string list \<times> string list \<Rightarrow> string list" where
  "append_dirs directories t =
     (case t of (root, dirs, _) \<Rightarrow> foldl (\<lambda>acc dir. acc @ [join root dir]) directories dirs)"

definition get_all_directories :: "filesystem \<Rightarrow> string \<Rightarrow> string list" where
  "get_all_directories fs directory = foldl append_dirs [] (walk fs directory)"


section \<open>Loading the documents\<close>

text \<open>
  A document is opaque to the script (the type variable \<open>'doc\<close>). The reader
  \<^verbatim>\<open>SimpleDirectoryReader(directory).load_data()\<close> is a collaborator: for a directory
  it returns a list of documents or raises. What it raises is an instance of Python's
  \<^verbatim>\<open>Exception\<close>, with a class name and the text that \<^verbatim>\<open>str(e)\<close> gives.
\<close>

datatype py_exception = Exception (cls: string) (str: string)

datatype 'doc outcome = Returned "'doc list" | Raised py_exception

type_synonym 'doc reader = "string \<Rightarrow> 'doc outcome"

definition load_documents_from_single_directory :: "'doc reader \<Rightarrow> string \<Rightarrow> 'doc outcome" where
  "load_documents_from_single_directory reader directory = reader directory"

text \<open>
  A future is the task \<^verbatim>\<open>executor.submit\<close> returns: it has an identity (the number of
  its submission) and holds what the task returned or raised.
\<close>

record 'doc future =
  fid :: nat
  result :: "'doc outcome"

text \<open>
  \<^verbatim>\<open>{executor.submit(load_documents_from_single_directory, dir_path): dir_path
     for dir_path in dir_paths}\<close>: one entry per element of \<^verbatim>\<open>dir_paths\<close>, keyed by a
  fresh future. The first argument counts the futures submitted before.
\<close>

fun submit_all :: "'doc reader \<Rightarrow> nat \<Rightarrow> string list \<Rightarrow> ('doc future \<times> string) list" where
  "submit_all reader k [] = []"
| "submit_all reader k (dir_path # dir_paths) =
     (\<lparr>fid = k, result = load_documents_from_single_directory reader dir_path\<rparr>, dir_path) #
     submit_all reader (Suc k) dir_paths"

text \<open>
  \<^verbatim>\<open>concurrent.futures.as_completed\<close> yields every future once, in the order in which
  the tasks finish. The thread scheduler decides that order; it is a parameter here: each
  number of the schedule picks the next future to finish among those still pending, and
  when the schedule is used up the rest finish in the order of submission.
\<close>

function as_completed :: "nat list \<Rightarrow> 'a list \<Rightarrow> 'a list" where
  "as_completed sched [] = []"
| "as_completed [] (f # fs) = f # as_completed [] fs"
| "as_completed (k # sched) (f # fs) =
     (let i = k mod length (f # fs)
      in (f # fs) ! i # as_completed sched (take i (f # fs) @ drop (Suc i) (f # fs)))"
  by pat_completeness auto
termination
  by (relation "measure (\<lambda>(sched, pending). length pending)") auto

datatype error = KeyError | EOFError

text \<open>
  What a run does, in the order in which it does it: taking the result of a future (named
  by its number), a line written by \<^verbatim>\<open>print\<close>, and the calls of \<^verbatim>\<open>main\<close> to its
  collaborators.
\<close>

datatype 'doc event =
    Future_result nat
  | Print string
  | Set_embed_model string
  | Set_llm string nat
  | From_documents "'doc list"
  | As_query_engine bool nat
  | Prompt string
  | Query string
  | Print_response_stream string

text \<open>
  What the loader changes: the list \<^verbatim>\<open>documents\<close>, the events so far, and the counter
  of the progress bar (\<^verbatim>\<open>tqdm\<close> counts one more after each pass through the body of
  the loop it wraps).
\<close>

record 'doc loader_state =
  documents :: "'doc list"
  events :: "'doc event list"
  progress :: nat

fun printed_line :: "'doc event \<Rightarrow> string list" where
  "printed_line (Print line) = [line]"
| "printed_line _ = []"

text \<open>The lines on standard output, in order.\<close>

definition printed :: "'doc event list \<Rightarrow> string list" where
  "printed evs = concat (map printed_line evs)"

text \<open>
  \<^verbatim>\<open>
  try:
      documents.extend(future.result())
  except Exception as e:
      print(f"Error loading documents from directory {future_to_dir[future]}: {e}")
  \<close>
\<close>

definition error_line :: "string \<Rightarrow> py_exception \<Rightarrow> string" where
  "error_line dir_path e = ''Error loading documents from directory '' @ dir_path @ '': '' @ str e"

definition handle_future ::
  "('doc future \<times> string) list \<Rightarrow> 'doc future \<Rightarrow> 'doc loader_state \<Rightarrow> error + 'doc loader_state" where
  "handle_future future_to_dir future s =
     (let s = s\<lparr>events := events s @ [Future_result (fid future)]\<rparr>
      in case result future of
           Returned docs \<Rightarrow> Inr (s\<lparr>documents := documents s @ docs\<rparr>)
         | Raised e \<Rightarrow>
             (case map_of future_to_dir future of
                None \<Rightarrow> Inl KeyError
              | Some dir_path \<Rightarrow> Inr (s\<lparr>events := events s @ [Print (error_line dir_path e)]\<rparr>)))"

fun for_completed ::
  "('doc future \<times> string) list \<Rightarrow> 'doc future list \<Rightarrow> 'doc loader_state \<Rightarrow> error + 'doc loader_state" where
  "for_completed future_to_dir [] s = Inr s"
| "for_completed future_to_dir (future # rest) s =
     (case handle_future future_to_dir future s of
        Inl err \<Rightarrow> Inl err
      | Inr s' \<Rightarrow> for_completed future_to_dir rest (s'\<lparr>progress := Suc (progress s')\<rparr>))"

text \<open>
  \<^verbatim>\<open>
  def load_documents_from_directory(directory):
      dir_paths = get_all_directories(directory)
      documents = []
      with concurrent.futures.ThreadPoolExecutor() as executor:
          future_to_dir = {...}
          for future in tqdm(concurrent.futures.as_completed(future_to_dir),
                             total=len(future_to_dir), desc="Indexing documents"):
              ...
      return documents
  \<close>
  The model returns the whole state, of which \<^verbatim>\<open>documents\<close> is the function's value.
\<close>

definition load_tasks ::
  "'doc reader \<Rightarrow> nat list \<Rightarrow> string list \<Rightarrow> error + 'doc loader_state" where
  "load_tasks reader sched dir_paths =
     (let future_to_dir = submit_all reader 0 dir_paths
      in for_completed future_to_dir (as_completed sched (map fst future_to_dir))
           \<lparr>documents = [], events = [], progress = 0\<rparr>)"

definition load_documents_from_directory ::
  "filesystem \<Rightarrow> 'doc reader \<Rightarrow> nat list \<Rightarrow> string \<Rightarrow> error + 'doc loader_state" where
  "load_documents_from_directory fs reader sched directory =
     load_tasks reader sched (get_all_directories fs directory)"

text \<open>The total the progress bar is created with: \<^verbatim>\<open>len(future_to_dir)\<close>.\<close>

definition progress_total :: "filesystem \<Rightarrow> 'doc reader \<Rightarrow> string \<Rightarrow> nat" where
  "progress_total fs reader directory =
     length (submit_all reader 0 (get_all_directories fs directory))"


section \<open>The interactive loop and \<^verbatim>\<open>main\<close>\<close>

text \<open>
  \<^verbatim>\<open>str.lower()\<close> on the letters A to Z; every other character is left as it is. (Beyond
  ASCII Python lowers more characters, none of them to a letter of \<^verbatim>\<open>exit\<close>.)
\<close>

definition lower_char :: "char \<Rightarrow> char" where
  "lower_char c =
     (let n = (of_char c :: nat) in if 65 \<le> n \<and> n \<le> 90 then char_of (n + 32) else c)"

definition lower :: "string \<Rightarrow> string" where
  "lower s = map lower_char s"

text \<open>
  The embedding provider, the language model, the index and the query engine are
  collaborators: a call to one of them is an event, and the engine's answer to a query is
  given by the function \<open>engine\<close>, from the indexed documents and the query to the text
  it streams.
\<close>

type_synonym 'doc engine = "'doc list \<Rightarrow> string \<Rightarrow> string"

datatype loop_state = AWAITING_INPUT | TERMINATED

text \<open>
  One pass through the body of \<^verbatim>\<open>while True\<close>, once \<^verbatim>\<open>input\<close> has returned
  \<open>query\<close>:
  \<^verbatim>\<open>
  if query.lower() == 'exit':
      break
  streaming_response = query_engine.query(query)
  streaming_response.print_response_stream()
  print()
  \<close>
\<close>

definition loop_body :: "(string \<Rightarrow> string) \<Rightarrow> string \<Rightarrow> loop_state \<times> 'doc event list" where
  "loop_body query_engine query =
     (if lower query = ''exit'' then (TERMINATED, [])
      else (AWAITING_INPUT,
            [Query query, Print_response_stream (query_engine query), Print []]))"

definition prompt_text :: string where
  "prompt_text = ''Enter your query (or type '' @ [CHR 0x27] @ ''exit'' @ [CHR 0x27] @ '' to quit): ''"

text \<open>
  The loop over the lines that standard input holds. When the input is used up,
  \<^verbatim>\<open>input\<close> raises \<^verbatim>\<open>EOFError\<close>, which nothing catches.
\<close>

fun interactive_loop ::
  "(string \<Rightarrow> string) \<Rightarrow> string list \<Rightarrow> 'doc event list \<times> error option" where
  "interactive_loop query_engine [] = ([Prompt prompt_text], Some EOFError)"
| "interactive_loop query_engine (query # inputs) =
     (case loop_body query_engine query of
        (TERMINATED, evs) \<Rightarrow> (Prompt prompt_text # evs, None)
      | (AWAITING_INPUT, evs) \<Rightarrow>
          (case interactive_loop query_engine inputs of
             (rest, status) \<Rightarrow> (Prompt prompt_text # evs @ rest, status)))"

text \<open>
  \<^verbatim>\<open>
  def main(data_folder, model_name):
      documents = load_documents_from_directory(data_folder)
      Settings.embed_model = HuggingFaceEmbedding(model_name="BAAI/bge-base-en-v1.5")
      Settings.llm = Ollama(model=model_name, request_timeout=360.0)
      index = VectorStoreIndex.from_documents(documents)
      query_engine = index.as_query_engine(streaming=True, similarity_top_k=5)
      while True: ...
  \<close>
  The trace of a run and how it ends: \<open>None\<close> when the loop breaks, the error otherwise.
  Each call to a collaborator is taken to return; \<^verbatim>\<open>main\<close> catches no failure of
  one, which would end the run at that call. The timeout of the language model is the
  literal 360.
\<close>

definition main ::
  "filesystem \<Rightarrow> 'doc reader \<Rightarrow> nat list \<Rightarrow> 'doc engine \<Rightarrow> string list \<Rightarrow>
   string \<Rightarrow> string \<Rightarrow> 'doc event list \<times> error option" where
  "main fs reader sched engine inputs data_folder model_name =
     (case load_documents_from_directory fs reader sched data_folder of
        Inl err \<Rightarrow> ([], Some err)
      | Inr s \<Rightarrow>
          (case interactive_loop (engine (documents s)) inputs of
             (evs, status) \<Rightarrow>
               (events s @
                [Set_embed_model ''BAAI/bge-base-en-v1.5'',
                 Set_llm model_name 360,
                 From_documents (documents s),
                 As_query_engine True 5] @ evs,
                status)))"

section \<open>Notions the properties are stated with\<close>

subsection \<open>Positions in the tree\<close>

text \<open>
  A position below a node is the list of the names that lead to it; \<open>lookup\<close> descends
  along it. \<open>dir_at\<close> holds where the descent ends in a directory.
\<close>

fun lookup :: "node \<Rightarrow> string list \<Rightarrow> node option" where
  "lookup n [] = Some n"
| "lookup File (x # xs) = None"
| "lookup (Dir es) (x # xs) = (case map_of es x of None \<Rightarrow> None | Some c \<Rightarrow> lookup c xs)"

definition dir_at :: "node \<Rightarrow> string list \<Rightarrow> bool" where
  "dir_at n ns = (case lookup n ns of None \<Rightarrow> False | Some m \<Rightarrow> is_dir m)"

text \<open>
  A file system never has two entries of one name in a directory, an entry of the empty
  name, or a separator inside a name.
\<close>

definition wf_name :: "string \<Rightarrow> bool" where
  "wf_name n \<longleftrightarrow> n \<noteq> [] \<and> sep \<notin> set n"

fun wf_node :: "node \<Rightarrow> bool" where
  "wf_node File = True"
| "wf_node (Dir es) = (distinct (map fst es) \<and> (\<forall>e \<in> set es. wf_name (fst e) \<and> wf_node (snd e)))"

text \<open>
  The positions of the directories below a node, in the order of the walk: the
  subdirectories of the node first, then those below each of them.
\<close>

fun rel_dirs :: "node \<Rightarrow> string list list" where
  "rel_dirs File = []"
| "rel_dirs (Dir es) =
     map (\<lambda>n. [n]) (dirs_of es) @
     concat (map (\<lambda>e. map ((#) (fst e)) (rel_dirs (snd e))) (filter (\<lambda>e. is_dir (snd e)) es))"

text \<open>A path as \<open>join\<close> extends it: unchanged when empty or ending in the separator.\<close>

definition with_sep :: "string \<Rightarrow> string" where
  "with_sep p = (if p = [] \<or> endswith_sep p then p else p @ [sep])"

subsection \<open>What a task contributes\<close>

text \<open>The documents and the diagnostic lines that one reader outcome gives rise to.\<close>

fun docs_of :: "'doc outcome \<Rightarrow> 'doc list" where
  "docs_of (Returned docs) = docs"
| "docs_of (Raised e) = []"

fun diagnostic_of :: "string \<Rightarrow> 'doc outcome \<Rightarrow> string list" where
  "diagnostic_of dir_path (Returned docs) = []"
| "diagnostic_of dir_path (Raised e) = [error_line dir_path e]"

definition task_events :: "'doc future \<times> string \<Rightarrow> 'doc event list" where
  "task_events p = Future_result (fid (fst p)) # map Print (diagnostic_of (snd p) (result (fst p)))"

fun is_future_result :: "'doc event \<Rightarrow> bool" where
  "is_future_result (Future_result k) = True"
| "is_future_result _ = False"

subsection \<open>A small tree\<close>

text \<open>
  A data folder with two subdirectories, one of them with a subdirectory of its own, and a
  file at the top and one below.
\<close>

definition example_tree :: node where
  "example_tree =
     Dir [(''a'', Dir [(''x.txt'', File), (''c'', Dir [])]), (''f.txt'', File), (''b'', Dir [])]"

definition example_fs :: filesystem where
  "example_fs p = (if p = ''data'' then Some example_tree else None)"

subsection \<open>Readers and a flat tree\<close>

text \<open>
  Readers over documents that are numbers: one that cannot read \<^verbatim>\<open>data/b\<close>, one that
  reads every directory, one that reads none, and one that finds documents in the data
  folder itself only. The flat tree holds files and no directory.
\<close>

definition example_reader :: "nat reader" where
  "example_reader d =
     (if d = ''data/a'' then Returned [1, 2]
      else if d = ''data/b'' then Raised (Exception ''PermissionError'' ''[Errno 13] Permission denied'')
      else Returned [3])"

definition example_reader_ok :: "nat reader" where
  "example_reader_ok d =
     (if d = ''data/a'' then Returned [1, 2]
      else if d = ''data/b'' then Returned [4]
      else Returned [3])"

definition failing_reader :: "nat reader" where
  "failing_reader d = Raised (Exception ''OSError'' ''unreadable'')"

definition flat_tree :: node where
  "flat_tree = Dir [(''f.txt'', File), (''g.txt'', File)]"

definition flat_fs :: filesystem where
  "flat_fs p = (if p = ''data'' then Some flat_tree else None)"

definition root_reader :: "nat reader" where
  "root_reader d = (if d = ''data'' then Returned [7, 8] else Returned [])"

subsection \<open>Equality of strings up to the case of letters\<close>

text \<open>
  Two characters are the same letter when they are equal or one is the capital of the
  other; two strings are equal up to case when they are so character by character.
\<close>

definition upper_char :: "char \<Rightarrow> char" where
  "upper_char c =
     (let n = (of_char c :: nat) in if 97 \<le> n \<and> n \<le> 122 then char_of (n - 32) else c)"

definition same_letter :: "char \<Rightarrow> char \<Rightarrow> bool" where
  "same_letter a b \<longleftrightarrow> a = b \<or> upper_char a = b \<or> a = upper_char b"

definition caseless_eq :: "string \<Rightarrow> string \<Rightarrow> bool" where
  "caseless_eq s t \<longleftrightarrow> list_all2 same_letter s t"

subsection \<open>Kinds of events, and a run\<close>

text \<open>
  The building of the index is the call \<^verbatim>\<open>VectorStoreIndex.from_documents\<close>; a query
  is a call of the engine. The engine of the example answers every query alike; the trace
  is that of the run over the small tree that reads two lines, \<^verbatim>\<open>hello\<close> and
  \<^verbatim>\<open>exit\<close>.
\<close>

fun is_build :: "'doc event \<Rightarrow> bool" where
  "is_build (From_documents docs) = True"
| "is_build _ = False"

fun is_query :: "'doc event \<Rightarrow> bool" where
  "is_query (Query q) = True"
| "is_query _ = False"

definition constant_engine :: "nat engine" where
  "constant_engine docs q = ''answer''"

definition example_trace :: "nat event list" where
  "example_trace =
     [Future_result 1,
      Print ''Error loading documents from directory data/b: [Errno 13] Permission denied'',
      Future_result 0, Future_result 2,
      Set_embed_model ''BAAI/bge-base-en-v1.5'', Set_llm ''llama3'' 360,
      From_documents [1, 2, 3], As_query_engine True 5,
      Prompt prompt_text, Query ''hello'', Print_response_stream ''answer'', Print [],
      Prompt prompt_text]"

section \<open>The walk lists the directories below the root\<close>

lemma foldl_append_inner:
  "foldl (\<lambda>acc dir. acc @ [join root dir]) acc dirs = acc @ map (join root) dirs"
  by (induction dirs arbitrary: acc) simp_all

lemma foldl_append_dirs:
  "foldl append_dirs acc ts = acc @ concat (map (\<lambda>t. map (join (fst t)) (fst (snd t))) ts)"
  by (induction ts arbitrary: acc) (simp_all add: append_dirs_def foldl_append_inner split: prod.splits)

lemma os_walk_rel_dirs:
  "concat (map (\<lambda>t. map (join (fst t)) (fst (snd t))) (os_walk p n)) = map (foldl join p) (rel_dirs n)"
proof (induction p n rule: os_walk.induct)
  case (1 p)
  show ?case by simp
next
  case (2 p es)
  have "concat (map (\<lambda>t. map (join (fst t)) (fst (snd t)))
          (concat (map (\<lambda>e. os_walk (join p (fst e)) (snd e)) (filter (\<lambda>e. is_dir (snd e)) es))))
      = concat (map (\<lambda>e. map (foldl join p) (map ((#) (fst e)) (rel_dirs (snd e)))) (filter (\<lambda>e. is_dir (snd e)) es))"
    using 2 by (induction es) (auto simp: comp_def)
  then show ?case
    by (simp add: dirs_of_def comp_def map_concat)
qed

lemma dir_at_Nil [simp]: "dir_at n [] = is_dir n"
  by (simp add: dir_at_def)

lemma dir_at_File [simp]: "dir_at File ns = False"
  by (cases ns) (simp_all add: dir_at_def)

lemma dir_at_Dir_Cons:
  assumes dist: "distinct (map fst es)"
  shows "dir_at (Dir es) (x # xs) = (\<exists>c. (x, c) \<in> set es \<and> dir_at c xs)"
proof (cases "map_of es x")
  case None
  have "\<And>c. (x, c) \<notin> set es"
  proof
    fix c assume "(x, c) \<in> set es"
    then have "\<exists>c'. map_of es x = Some c'" by (rule weak_map_of_SomeI)
    then show False using None by simp
  qed
  then show ?thesis using None by (simp add: dir_at_def)
next
  case (Some c)
  have "\<And>c'. (x, c') \<in> set es \<longleftrightarrow> c' = c"
    using map_of_eq_Some_iff [OF dist, of x] Some by (metis option.inject)
  then show ?thesis using Some by (simp add: dir_at_def)
qed

lemma rel_dirs_not_Nil: "[] \<notin> set (rel_dirs n)"
  by (cases n) (auto simp: dirs_of_def)

lemma rel_dirs_iff:
  "wf_node n \<Longrightarrow> ns \<in> set (rel_dirs n) \<longleftrightarrow> ns \<noteq> [] \<and> dir_at n ns"
proof (induction n arbitrary: ns rule: rel_dirs.induct)
  case 1
  show ?case by simp
next
  case (2 es)
  have dist: "distinct (map fst es)" using "2.prems" by simp
  have IH: "\<And>x c ms. (x, c) \<in> set es \<Longrightarrow> is_dir c \<Longrightarrow>
      ms \<in> set (rel_dirs c) \<longleftrightarrow> ms \<noteq> [] \<and> dir_at c ms"
  proof -
    fix x c ms assume m: "(x, c) \<in> set es" and d: "is_dir c"
    have "(x, c) \<in> set (filter (\<lambda>e. is_dir (snd e)) es)" using m d by simp
    moreover have "wf_node c" using "2.prems" m by auto
    ultimately show "ms \<in> set (rel_dirs c) \<longleftrightarrow> ms \<noteq> [] \<and> dir_at c ms"
      using "2.IH" [of "(x, c)" ms] by simp
  qed
  show ?case
  proof (cases ns)
    case Nil
    then show ?thesis using rel_dirs_not_Nil [of "Dir es"] by simp
  next
    case (Cons x xs)
    have "x # xs \<in> set (rel_dirs (Dir es)) \<longleftrightarrow>
        (\<exists>c. (x, c) \<in> set es \<and> is_dir c \<and> (xs = [] \<or> xs \<in> set (rel_dirs c)))"
      by (auto simp: dirs_of_def image_iff)
    also have "\<dots> \<longleftrightarrow> (\<exists>c. (x, c) \<in> set es \<and> dir_at c xs)"
    proof -
      have "\<And>c. (x, c) \<in> set es \<Longrightarrow>
          (is_dir c \<and> (xs = [] \<or> xs \<in> set (rel_dirs c))) = dir_at c xs"
      proof -
        fix c assume c: "(x, c) \<in> set es"
        show "(is_dir c \<and> (xs = [] \<or> xs \<in> set (rel_dirs c))) = dir_at c xs"
        proof (cases c)
          case File
          then show ?thesis by simp
        next
          case (Dir ds)
          then show ?thesis using IH [OF c, of xs] by (cases "xs = []") auto
        qed
      qed
      then show ?thesis by blast
    qed
    also have "\<dots> \<longleftrightarrow> dir_at (Dir es) (x # xs)"
      by (rule dir_at_Dir_Cons [OF dist, symmetric])
    finally have "x # xs \<in> set (rel_dirs (Dir es)) \<longleftrightarrow> dir_at (Dir es) (x # xs)" .
    then show ?thesis
      by (simp only: Cons list.distinct simp_thms)
  qed
qed

lemma distinct_concat_keyed:
  assumes "distinct (map fst es)"
    and "\<And>e. e \<in> set es \<Longrightarrow> distinct (g e)"
    and "\<And>e x. e \<in> set es \<Longrightarrow> x \<in> set (g e) \<Longrightarrow> key x = fst e"
  shows "distinct (concat (map g es))"
  using assms
proof (induction es)
  case Nil
  show ?case by simp
next
  case (Cons e es)
  have "set (g e) \<inter> set (concat (map g es)) = {}"
  proof (rule ccontr)
    assume "set (g e) \<inter> set (concat (map g es)) \<noteq> {}"
    then obtain x e' where x: "x \<in> set (g e)" and e': "e' \<in> set es" and x': "x \<in> set (g e')"
      by auto
    have "key x = fst e" using Cons.prems(3) x by simp
    moreover have "key x = fst e'" using Cons.prems(3) e' x' by simp
    ultimately show False using Cons.prems(1) e' by (auto simp: image_iff)
  qed
  moreover have "distinct (concat (map g es))"
    using Cons by simp
  ultimately show ?case using Cons.prems(2) by simp
qed

lemma rel_dirs_distinct: "wf_node n \<Longrightarrow> distinct (rel_dirs n)"
proof (induction n rule: rel_dirs.induct)
  case 1
  show ?case by simp
next
  case (2 es)
  let ?sub = "filter (\<lambda>e. is_dir (snd e)) es"
  let ?g = "\<lambda>e. map ((#) (fst e)) (rel_dirs (snd e))"
  have dist: "distinct (map fst es)" using "2.prems" by simp
  have d1: "distinct (map (\<lambda>n. [n]) (dirs_of es))"
    using dist by (simp add: dirs_of_def distinct_map_filter distinct_map inj_on_def)
  have "distinct (map fst ?sub)" using dist by (rule distinct_map_filter)
  moreover have "\<And>e. e \<in> set ?sub \<Longrightarrow> distinct (?g e)"
    using "2.IH" "2.prems" by (simp add: distinct_map)
  moreover have "\<And>e x. e \<in> set ?sub \<Longrightarrow> x \<in> set (?g e) \<Longrightarrow> hd x = fst e"
    by auto
  ultimately have d2: "distinct (concat (map ?g ?sub))"
    by (rule distinct_concat_keyed)
  have "set (map (\<lambda>n. [n]) (dirs_of es)) \<inter> set (concat (map ?g ?sub)) = {}"
    using rel_dirs_not_Nil by auto
  then show ?case using d1 d2 by simp
qed

lemma lookup_wf:
  "wf_node n \<Longrightarrow> lookup n ns = Some m \<Longrightarrow> (\<forall>x \<in> set ns. wf_name x) \<and> wf_node m"
proof (induction n ns rule: lookup.induct)
  case (1 n)
  then show ?case by simp
next
  case (2 x xs)
  then show ?case by simp
next
  case (3 es x xs)
  from "3.prems"(2) obtain c where c: "map_of es x = Some c" and l: "lookup c xs = Some m"
    by (auto split: option.splits)
  have mem: "(x, c) \<in> set es" using c by (rule map_of_SomeD)
  then have "wf_name x" "wf_node c" using "3.prems"(1) by auto
  then show ?case using "3.IH" [OF c _ l] by simp
qed

lemma endswith_sep_iff: "endswith_sep p \<longleftrightarrow> p \<noteq> [] \<and> last p = sep"
  by (cases p rule: rev_cases) (simp_all add: endswith_sep_def)

lemma join_wf_name: "wf_name b \<Longrightarrow> join p b = with_sep p @ b"
  by (cases b) (auto simp: join_def with_sep_def startswith_sep_def wf_name_def)

lemma wf_name_tail:
  assumes "wf_name b"
  shows "q @ b \<noteq> [] \<and> \<not> endswith_sep (q @ b)"
proof -
  have b: "b \<noteq> []" and s: "sep \<notin> set b" using assms by (simp_all add: wf_name_def)
  have "last b \<in> set b" using b by (rule last_in_set)
  then have "last b \<noteq> sep" using s by metis
  then show ?thesis using b by (simp add: endswith_sep_iff)
qed

lemma foldl_join_seps:
  "p \<noteq> [] \<Longrightarrow> \<not> endswith_sep p \<Longrightarrow> \<forall>x \<in> set ns. wf_name x \<Longrightarrow>
   foldl join p ns = p @ concat (map ((#) sep) ns)"
proof (induction ns arbitrary: p)
  case Nil
  show ?case by simp
next
  case (Cons n ns)
  have n: "wf_name n" using Cons.prems by simp
  have j: "join p n = p @ sep # n"
    using Cons.prems(1,2) n by (simp add: join_wf_name with_sep_def)
  have "p @ sep # n = (p @ [sep]) @ n" by simp
  then have "p @ sep # n \<noteq> []" "\<not> endswith_sep (p @ sep # n)"
    using wf_name_tail [OF n, of "p @ [sep]"] by simp_all
  then have "foldl join (p @ sep # n) ns = (p @ sep # n) @ concat (map ((#) sep) ns)"
    using Cons.IH Cons.prems(3) by simp
  then show ?case using j by simp
qed

lemma foldl_join_Cons:
  assumes "\<forall>x \<in> set (n # ns). wf_name x"
  shows "foldl join p (n # ns) = with_sep p @ n @ concat (map ((#) sep) ns)"
proof -
  have n: "wf_name n" using assms by simp
  have "foldl join (with_sep p @ n) ns = (with_sep p @ n) @ concat (map ((#) sep) ns)"
    using wf_name_tail [OF n, of "with_sep p"] assms by (intro foldl_join_seps) simp_all
  then show ?thesis using n by (simp add: join_wf_name)
qed

lemma segment_unique:
  assumes "sep \<notin> set n" "sep \<notin> set m"
    and "r = [] \<or> hd r = sep" "r' = [] \<or> hd r' = sep"
    and "n @ r = m @ r'"
  shows "n = m \<and> r = r'"
proof -
  have tw: "\<And>a t. sep \<notin> set a \<Longrightarrow> t = [] \<or> hd t = sep \<Longrightarrow>
      takeWhile (\<lambda>c. c \<noteq> sep) (a @ t) = a"
  proof -
    fix a t :: string
    assume a: "sep \<notin> set a" and t: "t = [] \<or> hd t = sep"
    have "takeWhile (\<lambda>c. c \<noteq> sep) t = []" using t by (cases t) auto
    then show "takeWhile (\<lambda>c. c \<noteq> sep) (a @ t) = a"
      using a by (subst takeWhile_append2) auto
  qed
  have "n = takeWhile (\<lambda>c. c \<noteq> sep) (n @ r)" using tw assms(1,3) by simp
  also have "\<dots> = m" using tw assms(2,4,5) by simp
  finally have "n = m" .
  then show ?thesis using assms(5) by simp
qed

lemma seps_inject:
  "\<forall>x \<in> set ns. sep \<notin> set x \<Longrightarrow> \<forall>x \<in> set ms. sep \<notin> set x \<Longrightarrow>
   concat (map ((#) sep) ns) = concat (map ((#) sep) ms) \<Longrightarrow> ns = ms"
proof (induction ns arbitrary: ms)
  case Nil
  then show ?case by (cases ms) simp_all
next
  case (Cons n ns)
  then obtain m ms' where ms: "ms = m # ms'" by (cases ms) auto
  let ?r = "concat (map ((#) sep) ns)" and ?r' = "concat (map ((#) sep) ms')"
  have eq: "n @ ?r = m @ ?r'" using Cons.prems(3) ms by simp
  have "?r = [] \<or> hd ?r = sep" by (cases ns) simp_all
  moreover have "?r' = [] \<or> hd ?r' = sep" by (cases ms') simp_all
  ultimately have "n = m \<and> ?r = ?r'"
    using Cons.prems(1,2) ms eq by (intro segment_unique) simp_all
  then show ?case using Cons.IH [of ms'] Cons.prems(1,2) ms by simp
qed

lemma foldl_join_inject:
  assumes "ns \<noteq> []" "ms \<noteq> []"
    and "\<forall>x \<in> set ns. wf_name x" "\<forall>x \<in> set ms. wf_name x"
    and "foldl join p ns = foldl join p ms"
  shows "ns = ms"
proof -
  obtain n ns' where ns: "ns = n # ns'" using assms(1) by (cases ns) auto
  obtain m ms' where ms: "ms = m # ms'" using assms(2) by (cases ms) auto
  let ?r = "concat (map ((#) sep) ns')" and ?r' = "concat (map ((#) sep) ms')"
  have "with_sep p @ n @ ?r = with_sep p @ m @ ?r'"
    using assms(3,4,5) unfolding ns ms by (simp only: foldl_join_Cons)
  then have eq: "n @ ?r = m @ ?r'" by simp
  have "?r = [] \<or> hd ?r = sep" by (cases ns') simp_all
  moreover have "?r' = [] \<or> hd ?r' = sep" by (cases ms') simp_all
  ultimately have "n = m \<and> ?r = ?r'"
    using assms(3,4) ns ms eq by (intro segment_unique) (simp_all add: wf_name_def)
  moreover have "\<forall>x \<in> set ns'. sep \<notin> set x" "\<forall>x \<in> set ms'. sep \<notin> set x"
    using assms(3,4) ns ms by (simp_all add: wf_name_def)
  ultimately show ?thesis using seps_inject [of ns' ms'] ns ms by simp
qed

lemma foldl_join_longer:
  assumes "ns \<noteq> []" "\<forall>x \<in> set ns. wf_name x"
  shows "foldl join p ns \<noteq> p"
proof -
  obtain n ns' where ns: "ns = n # ns'" using assms(1) by (cases ns) auto
  have "foldl join p ns = with_sep p @ n @ concat (map ((#) sep) ns')"
    using assms(2) unfolding ns by (rule foldl_join_Cons)
  moreover have "n \<noteq> []" using assms(2) ns by (simp add: wf_name_def)
  ultimately have "length (foldl join p ns) > length p"
    by (simp add: with_sep_def)
  then show ?thesis by auto
qed

lemma as_completed_mset: "mset (as_completed sched fs) = mset fs"
proof (induction sched fs rule: as_completed.induct)
  case (1 sched)
  show ?case by simp
next
  case (2 f fs)
  then show ?case by simp
next
  case (3 k sched f fs)
  let ?p = "f # fs"
  let ?i = "k mod length ?p"
  have i: "?i < length ?p" by simp
  have "mset ?p = mset (take ?i ?p @ ?p ! ?i # drop (Suc ?i) ?p)"
    using id_take_nth_drop [OF i] by simp
  then have "mset ?p = add_mset (?p ! ?i) (mset (take ?i ?p @ drop (Suc ?i) ?p))"
    by simp
  then show ?case using 3 by (simp add: Let_def)
qed

lemma as_completed_length: "length (as_completed sched fs) = length fs"
  using as_completed_mset [of sched fs] by (metis size_mset)

lemma as_completed_set: "set (as_completed sched fs) = set fs"
  using as_completed_mset [of sched fs] by (metis set_mset_mset)

lemma as_completed_any_order:
  "mset ys = mset fs \<Longrightarrow> \<exists>sched. as_completed sched fs = ys"
proof (induction ys arbitrary: fs)
  case Nil
  then show ?case by simp
next
  case (Cons y ys)
  then have "y \<in> set fs" by (metis list.set_intros(1) set_mset_mset)
  then obtain i where i: "i < length fs" and y: "fs ! i = y"
    by (auto simp: in_set_conv_nth)
  obtain f fs' where fs: "fs = f # fs'" using i by (cases fs) auto
  let ?rest = "take i fs @ drop (Suc i) fs"
  have "mset fs = add_mset y (mset ?rest)"
    using id_take_nth_drop [OF i] y by (metis mset.simps(2) mset_append union_mset_add_mset_right)
  then have "mset ys = mset ?rest" using Cons.prems by simp
  then obtain sched where "as_completed sched ?rest = ys" using Cons.IH by blast
  then have "as_completed (i # sched) fs = y # ys"
    using i y unfolding fs by (simp add: Let_def)
  then show ?case by blast
qed

lemma submit_all_snd: "map snd (submit_all reader k ds) = ds"
  by (induction ds arbitrary: k) simp_all

lemma submit_all_fid: "map (\<lambda>p. fid (fst p)) (submit_all reader k ds) = [k..<k + length ds]"
  by (induction ds arbitrary: k) (simp_all add: upt_rec)

lemma submit_all_result:
  "map (\<lambda>p. result (fst p)) (submit_all reader k ds) = map reader ds"
  by (induction ds arbitrary: k) (simp_all add: load_documents_from_single_directory_def)

lemma submit_all_result_snd:
  "p \<in> set (submit_all reader k ds) \<Longrightarrow> result (fst p) = reader (snd p)"
  by (induction ds arbitrary: k) (auto simp: load_documents_from_single_directory_def)

lemma submit_all_distinct: "distinct (map fst (submit_all reader k ds))"
proof -
  have "map fid (map fst (submit_all reader k ds)) = [k..<k + length ds]"
    using submit_all_fid [of reader k ds] by (simp add: comp_def)
  then have "distinct (map fid (map fst (submit_all reader k ds)))"
    by (simp only: distinct_upt)
  then show ?thesis
    using distinct_map [of fid "map fst (submit_all reader k ds)"] by blast
qed

lemma submit_all_lookup:
  assumes "f \<in> set (map fst (submit_all reader k ds))"
  shows "\<exists>d. map_of (submit_all reader k ds) f = Some d \<and> result f = reader d"
proof -
  obtain d where m: "(f, d) \<in> set (submit_all reader k ds)" using assms by auto
  have "map_of (submit_all reader k ds) f = Some d"
    by (rule map_of_is_SomeI [OF submit_all_distinct m])
  moreover have "result f = reader d" using submit_all_result_snd [OF m] by simp
  ultimately show ?thesis by blast
qed

lemma as_completed_step:
  "xs \<noteq> [] \<Longrightarrow> as_completed (k # sched) xs =
     xs ! (k mod length xs) #
     as_completed sched (take (k mod length xs) xs @ drop (Suc (k mod length xs)) xs)"
  by (cases xs) (simp_all add: Let_def)

lemma as_completed_map: "as_completed sched (map g xs) = map g (as_completed sched xs)"
proof (induction sched xs rule: as_completed.induct)
  case (1 sched)
  show ?case by simp
next
  case (2 f fs)
  then show ?case by simp
next
  case (3 k sched f fs)
  define xs where "xs = f # fs"
  define i where "i = k mod length xs"
  have ne: "xs \<noteq> []" and i: "i < length xs" by (simp_all add: xs_def i_def)
  have IH: "as_completed sched (map g (take i xs @ drop (Suc i) xs)) =
      map g (as_completed sched (take i xs @ drop (Suc i) xs))"
    using "3.IH" [of i] by (simp only: xs_def i_def)
  have "as_completed (k # sched) (map g xs) =
      map g xs ! i # as_completed sched (take i (map g xs) @ drop (Suc i) (map g xs))"
    using as_completed_step [of "map g xs" k sched] ne by (simp add: i_def)
  also have "\<dots> = g (xs ! i) # as_completed sched (map g (take i xs @ drop (Suc i) xs))"
    using i by (simp only: nth_map take_map drop_map map_append)
  also have "\<dots> = map g (xs ! i # as_completed sched (take i xs @ drop (Suc i) xs))"
    by (simp only: IH list.map)
  also have "\<dots> = map g (as_completed (k # sched) xs)"
    using as_completed_step [of xs k sched] ne by (simp add: i_def)
  finally show ?case by (simp only: xs_def)
qed

lemma handle_future_known:
  assumes "map_of ftd (fst p) = Some (snd p)"
  shows "handle_future ftd (fst p) s =
     Inr (s\<lparr>documents := documents s @ docs_of (result (fst p)),
            events := events s @ task_events p\<rparr>)"
  using assms by (cases "result (fst p)") (simp_all add: handle_future_def task_events_def Let_def)

lemma for_completed_result:
  assumes "\<forall>p \<in> set ps. map_of ftd (fst p) = Some (snd p)"
  shows "for_completed ftd (map fst ps) s =
     Inr \<lparr>documents = documents s @ concat (map (\<lambda>p. docs_of (result (fst p))) ps),
          events = events s @ concat (map task_events ps),
          progress = progress s + length ps\<rparr>"
  using assms
proof (induction ps arbitrary: s)
  case Nil
  show ?case by simp
next
  case (Cons p ps)
  have "handle_future ftd (fst p) s =
     Inr (s\<lparr>documents := documents s @ docs_of (result (fst p)),
            events := events s @ task_events p\<rparr>)"
    using Cons.prems by (intro handle_future_known) simp
  then show ?case using Cons.IH Cons.prems by simp
qed

lemma load_tasks_result:
  "\<exists>ps. mset ps = mset (submit_all reader 0 ds) \<and>
     load_tasks reader sched ds =
       Inr \<lparr>documents = concat (map (\<lambda>p. docs_of (reader (snd p))) ps),
            events = concat (map task_events ps),
            progress = length ds\<rparr>"
proof -
  let ?ftd = "submit_all reader 0 ds"
  let ?ps = "as_completed sched ?ftd"
  have set: "set ?ps = set ?ftd" by (rule as_completed_set)
  have known: "\<forall>p \<in> set ?ps. map_of ?ftd (fst p) = Some (snd p)"
  proof
    fix p assume "p \<in> set ?ps"
    then have "(fst p, snd p) \<in> set ?ftd" using set by simp
    then show "map_of ?ftd (fst p) = Some (snd p)"
      by (rule map_of_is_SomeI [OF submit_all_distinct])
  qed
  have res: "map (\<lambda>p. docs_of (result (fst p))) ?ps = map (\<lambda>p. docs_of (reader (snd p))) ?ps"
  proof (rule map_cong [OF refl])
    fix p assume "p \<in> set ?ps"
    then have "p \<in> set ?ftd" using set by simp
    then have "result (fst p) = reader (snd p)" by (rule submit_all_result_snd)
    then show "docs_of (result (fst p)) = docs_of (reader (snd p))" by simp
  qed
  have len: "length ?ps = length ds"
    using as_completed_length [of sched ?ftd] submit_all_snd [of reader 0 ds]
    by (metis length_map)
  have "load_tasks reader sched ds =
     for_completed ?ftd (map fst ?ps) \<lparr>documents = [], events = [], progress = 0\<rparr>"
    by (simp add: load_tasks_def Let_def as_completed_map)
  also have "\<dots> = Inr \<lparr>documents = concat (map (\<lambda>p. docs_of (result (fst p))) ?ps),
          events = concat (map task_events ?ps), progress = length ?ps\<rparr>"
    using for_completed_result [OF known] by simp
  finally show ?thesis
    using as_completed_mset [of sched ?ftd] res len by auto
qed

lemma mset_concat_map: "mset (concat (map h xs)) = (\<Sum>x\<in>#mset xs. mset (h x))"
  by (induction xs) simp_all

lemma printed_append: "printed (xs @ ys) = printed xs @ printed ys"
  by (simp add: printed_def)

lemma printed_task_events:
  "printed (task_events p) = diagnostic_of (snd p) (result (fst p))"
  by (cases "result (fst p)") (simp_all add: printed_def task_events_def)

lemma printed_concat_task_events:
  "printed (concat (map task_events ps)) =
     concat (map (\<lambda>p. diagnostic_of (snd p) (result (fst p))) ps)"
  by (induction ps) (simp_all add: printed_append printed_task_events, simp add: printed_def)

lemma future_results_task_events:
  "length (filter is_future_result (concat (map task_events ps))) = length ps"
proof (induction ps)
  case Nil
  show ?case by simp
next
  case (Cons p ps)
  have "filter is_future_result (task_events p) = [Future_result (fid (fst p))]"
    by (cases "result (fst p)") (simp_all add: task_events_def)
  then show ?case using Cons by simp
qed

lemma sum_over_pairs:
  assumes "mset ps = mset (submit_all reader k ds)"
  shows "(\<Sum>p\<in>#mset ps. G (snd p)) = (\<Sum>d\<in>#mset ds. G d)"
proof -
  have "image_mset (\<lambda>p. G (snd p)) (mset ps) = image_mset G (image_mset snd (mset ps))"
    by (simp add: multiset.map_comp comp_def)
  also have "image_mset snd (mset ps) = mset (map snd (submit_all reader k ds))"
    using assms by simp
  also have "\<dots> = mset ds" by (simp only: submit_all_snd)
  finally show ?thesis by simp
qed

lemma load_tasks_summary:
  "\<exists>s. load_tasks reader sched ds = Inr s \<and>
     mset (documents s) = (\<Sum>d\<in>#mset ds. mset (docs_of (reader d))) \<and>
     mset (printed (events s)) = (\<Sum>d\<in>#mset ds. mset (diagnostic_of d (reader d))) \<and>
     progress s = length ds \<and>
     length (filter is_future_result (events s)) = length ds"
proof -
  obtain ps where ps: "mset ps = mset (submit_all reader 0 ds)"
    and load: "load_tasks reader sched ds =
       Inr \<lparr>documents = concat (map (\<lambda>p. docs_of (reader (snd p))) ps),
            events = concat (map task_events ps),
            progress = length ds\<rparr>"
    using load_tasks_result [of reader ds sched] by blast
  let ?s = "\<lparr>documents = concat (map (\<lambda>p. docs_of (reader (snd p))) ps),
            events = concat (map task_events ps),
            progress = length ds\<rparr>"
  have set: "set ps = set (submit_all reader 0 ds)" using ps by (rule mset_eq_setD)
  have len: "length ps = length ds"
    using ps submit_all_snd [of reader 0 ds] by (metis length_map size_mset)
  have docs: "mset (documents ?s) = (\<Sum>d\<in>#mset ds. mset (docs_of (reader d)))"
    using sum_over_pairs [OF ps, of "\<lambda>d. mset (docs_of (reader d))"]
    by (simp add: mset_concat_map)
  have dmap: "map (\<lambda>p. diagnostic_of (snd p) (result (fst p))) ps =
      map (\<lambda>p. diagnostic_of (snd p) (reader (snd p))) ps"
  proof (rule map_cong [OF refl])
    fix p assume "p \<in> set ps"
    then have "p \<in> set (submit_all reader 0 ds)" using set by simp
    then have "result (fst p) = reader (snd p)" by (rule submit_all_result_snd)
    then show "diagnostic_of (snd p) (result (fst p)) = diagnostic_of (snd p) (reader (snd p))"
      by simp
  qed
  have "printed (events ?s) = concat (map (\<lambda>p. diagnostic_of (snd p) (result (fst p))) ps)"
    by (simp add: printed_concat_task_events)
  then have "printed (events ?s) = concat (map (\<lambda>p. diagnostic_of (snd p) (reader (snd p))) ps)"
    by (simp only: dmap)
  then have prn: "mset (printed (events ?s)) = (\<Sum>d\<in>#mset ds. mset (diagnostic_of d (reader d)))"
    using sum_over_pairs [OF ps, of "\<lambda>d. mset (diagnostic_of d (reader d))"]
    by (simp add: mset_concat_map)
  have cnt: "length (filter is_future_result (events ?s)) = length ds"
    using len by (simp add: future_results_task_events)
  show ?thesis
    using load docs prn cnt by (intro exI [of _ ?s]) simp
qed

lemma get_all_directories_rel_dirs:
  "fs directory = Some root \<Longrightarrow>
   get_all_directories fs directory = map (foldl join directory) (rel_dirs root)"
  by (simp add: get_all_directories_def walk_def foldl_append_dirs os_walk_rel_dirs)

lemma get_all_directories_missing: "fs directory = None \<Longrightarrow> get_all_directories fs directory = []"
  by (simp add: get_all_directories_def walk_def)

lemma rel_dirs_wf_names:
  assumes "wf_node root" "ns \<in> set (rel_dirs root)"
  shows "ns \<noteq> [] \<and> (\<forall>x \<in> set ns. wf_name x) \<and> dir_at root ns"
proof -
  have ns: "ns \<noteq> []" and d: "dir_at root ns" using assms by (simp_all add: rel_dirs_iff)
  then obtain m where "lookup root ns = Some m" by (auto simp: dir_at_def split: option.splits)
  then have "\<forall>x \<in> set ns. wf_name x" using lookup_wf [OF assms(1)] by blast
  then show ?thesis using ns d by simp
qed

lemma root_not_listed:
  assumes "fs directory = Some root" "wf_node root"
  shows "directory \<notin> set (get_all_directories fs directory)"
proof
  assume "directory \<in> set (get_all_directories fs directory)"
  then obtain ns where ns: "ns \<in> set (rel_dirs root)" and eq: "foldl join directory ns = directory"
    using get_all_directories_rel_dirs [of fs directory root] assms(1) by auto
  have "ns \<noteq> []" "\<forall>x \<in> set ns. wf_name x" using rel_dirs_wf_names [OF assms(2) ns] by simp_all
  then have "foldl join directory ns \<noteq> directory" by (rule foldl_join_longer)
  then show False using eq by simp
qed

text \<open>
  Claim C2. For a tree that a path resolves to, \<open>get_all_directories\<close> returns exactly
  the paths of the directories strictly below the root: each of them, at any depth, once;
  not the root itself; and no path of a file.
\<close>

theorem get_all_directories_exact:
  assumes "fs directory = Some root" and "wf_node root"
  shows "set (get_all_directories fs directory) =
           {foldl join directory ns | ns. ns \<noteq> [] \<and> dir_at root ns} \<and>
         distinct (get_all_directories fs directory) \<and>
         directory \<notin> set (get_all_directories fs directory) \<and>
         (\<forall>ns. lookup root ns = Some File \<longrightarrow>
               foldl join directory ns \<notin> set (get_all_directories fs directory))"
proof -
  let ?path = "foldl join directory"
  have gad: "get_all_directories fs directory = map ?path (rel_dirs root)"
    using get_all_directories_rel_dirs [of fs directory root] assms(1) by simp
  have "set (rel_dirs root) = {ns. ns \<noteq> [] \<and> dir_at root ns}"
    using rel_dirs_iff [OF assms(2)] by blast
  then have exact: "set (get_all_directories fs directory) =
      {?path ns | ns. ns \<noteq> [] \<and> dir_at root ns}"
    unfolding gad by auto
  have "inj_on ?path (set (rel_dirs root))"
  proof (rule inj_onI)
    fix ns ms
    assume ns: "ns \<in> set (rel_dirs root)" and ms: "ms \<in> set (rel_dirs root)"
      and eq: "?path ns = ?path ms"
    show "ns = ms"
      using rel_dirs_wf_names [OF assms(2) ns] rel_dirs_wf_names [OF assms(2) ms] eq
      by (intro foldl_join_inject [of ns ms directory]) simp_all
  qed
  then have dist: "distinct (get_all_directories fs directory)"
    unfolding gad using rel_dirs_distinct [OF assms(2)] by (simp add: distinct_map)
  have files: "\<forall>ns. lookup root ns = Some File \<longrightarrow>
      ?path ns \<notin> set (get_all_directories fs directory)"
  proof (intro allI impI notI)
    fix ns
    assume isfile: "lookup root ns = Some File"
      and mem: "?path ns \<in> set (get_all_directories fs directory)"
    from mem obtain ms where ms: "ms \<in> set (rel_dirs root)" and eq: "?path ms = ?path ns"
      unfolding gad by auto
    have wms: "ms \<noteq> []" "\<forall>x \<in> set ms. wf_name x" "dir_at root ms"
      using rel_dirs_wf_names [OF assms(2) ms] by simp_all
    have wns: "\<forall>x \<in> set ns. wf_name x" using lookup_wf [OF assms(2) isfile] by simp
    show False
    proof (cases "ns = []")
      case True
      then have "?path ms = directory" using eq by simp
      moreover have "?path ms \<noteq> directory" using wms(1,2) by (rule foldl_join_longer)
      ultimately show False by simp
    next
      case False
      then have "ms = ns" using wms wns eq by (intro foldl_join_inject [of ms ns directory]) simp_all
      then show False using wms(3) isfile by (simp add: dir_at_def)
    qed
  qed
  show ?thesis using exact dist files root_not_listed [of fs directory root] assms by simp
qed

theorem get_all_directories_exact_witness:
  "example_fs ''data'' = Some example_tree \<and> wf_node example_tree \<and>
   get_all_directories example_fs ''data'' = [''data/a'', ''data/b'', ''data/a/c''] \<and>
   set (get_all_directories example_fs ''data'') =
     {foldl join ''data'' ns | ns. ns \<noteq> [] \<and> dir_at example_tree ns} \<and>
   distinct (get_all_directories example_fs ''data'') \<and>
   ''data'' \<notin> set (get_all_directories example_fs ''data'') \<and>
   lookup example_tree [''a'', ''x.txt''] = Some File \<and>
   foldl join ''data'' [''a'', ''x.txt''] \<notin> set (get_all_directories example_fs ''data'')"
proof -
  have h1: "example_fs ''data'' = Some example_tree" by (simp add: example_fs_def)
  have h2: "wf_node example_tree" by (simp add: example_tree_def wf_name_def sep_def)
  have h3: "lookup example_tree [''a'', ''x.txt''] = Some File" by (simp add: example_tree_def)
  have v: "get_all_directories example_fs ''data'' = [''data/a'', ''data/b'', ''data/a/c'']"
    by (simp add: get_all_directories_def walk_def example_fs_def example_tree_def append_dirs_def
        dirs_of_def nondirs_of_def join_def startswith_sep_def endswith_sep_def sep_def)
  show ?thesis
    using get_all_directories_exact [of example_fs "''data''" example_tree] h1 h2 h3 v by blast
qed

section \<open>What the loader returns\<close>

lemma example_dirs:
  "get_all_directories example_fs ''data'' = [''data/a'', ''data/b'', ''data/a/c'']"
  by (simp add: get_all_directories_def walk_def example_fs_def example_tree_def append_dirs_def
      dirs_of_def nondirs_of_def join_def startswith_sep_def endswith_sep_def sep_def)

lemma load_summary:
  "\<exists>s. load_documents_from_directory fs reader sched directory = Inr s \<and>
     mset (documents s) =
       (\<Sum>d\<in>#mset (get_all_directories fs directory). mset (docs_of (reader d))) \<and>
     mset (printed (events s)) =
       (\<Sum>d\<in>#mset (get_all_directories fs directory). mset (diagnostic_of d (reader d))) \<and>
     progress s = length (get_all_directories fs directory) \<and>
     length (filter is_future_result (events s)) = length (get_all_directories fs directory)"
  unfolding load_documents_from_directory_def by (rule load_tasks_summary)

text \<open>
  Claim C3. When the reader succeeds on every enumerated directory, the documents that
  \<open>load_documents_from_directory\<close> returns are, as a multiset, the union of the
  readers' results, whatever the schedule; and every order of the futures is the
  completion order of some schedule.
\<close>

theorem load_all_succeed:
  assumes "\<forall>d \<in> set (get_all_directories fs directory). \<exists>docs. reader d = Returned docs"
  shows "(\<exists>s s'. load_documents_from_directory fs reader sched directory = Inr s \<and>
           load_documents_from_directory fs reader sched' directory = Inr s' \<and>
           mset (documents s) =
             (\<Sum>d\<in>#mset (get_all_directories fs directory). mset (docs_of (reader d))) \<and>
           mset (documents s') = mset (documents s)) \<and>
         (\<forall>order. mset order = mset (map fst (submit_all reader 0 (get_all_directories fs directory))) \<longrightarrow>
            (\<exists>sched. as_completed sched
               (map fst (submit_all reader 0 (get_all_directories fs directory))) = order))"
proof -
  obtain s where s: "load_documents_from_directory fs reader sched directory = Inr s"
    "mset (documents s) =
       (\<Sum>d\<in>#mset (get_all_directories fs directory). mset (docs_of (reader d)))"
    using load_summary [of fs reader sched directory] by blast
  obtain s' where s': "load_documents_from_directory fs reader sched' directory = Inr s'"
    "mset (documents s') =
       (\<Sum>d\<in>#mset (get_all_directories fs directory). mset (docs_of (reader d)))"
    using load_summary [of fs reader sched' directory] by blast
  have "\<exists>s s'. load_documents_from_directory fs reader sched directory = Inr s \<and>
           load_documents_from_directory fs reader sched' directory = Inr s' \<and>
           mset (documents s) =
             (\<Sum>d\<in>#mset (get_all_directories fs directory). mset (docs_of (reader d))) \<and>
           mset (documents s') = mset (documents s)"
    using s s' by simp
  then show ?thesis using as_completed_any_order by blast
qed

theorem load_all_succeed_witness:
  "example_reader_ok ''data/a'' = Returned [1, 2] \<and>
   example_reader_ok ''data/b'' = Returned [4] \<and>
   example_reader_ok ''data/a/c'' = Returned [3] \<and>
   (\<exists>s s'. load_documents_from_directory example_fs example_reader_ok [2, 0] ''data'' = Inr s \<and>
      load_documents_from_directory example_fs example_reader_ok [] ''data'' = Inr s' \<and>
      documents s = [3, 1, 2, 4] \<and> documents s' = [1, 2, 4, 3] \<and>
      mset (documents s) =
        (\<Sum>d\<in>#mset (get_all_directories example_fs ''data''). mset (docs_of (example_reader_ok d))) \<and>
      mset (documents s') = mset (documents s)) \<and>
   (\<exists>sched. as_completed sched
      (map fst (submit_all example_reader_ok 0 (get_all_directories example_fs ''data''))) =
      rev (map fst (submit_all example_reader_ok 0 (get_all_directories example_fs ''data''))))"
proof -
  have h: "\<forall>d \<in> set (get_all_directories example_fs ''data''). \<exists>docs. example_reader_ok d = Returned docs"
    by (simp add: example_dirs example_reader_ok_def)
  have r: "example_reader_ok ''data/a'' = Returned [1, 2]"
    "example_reader_ok ''data/b'' = Returned [4]"
    "example_reader_ok ''data/a/c'' = Returned [3]"
    by (simp_all add: example_reader_ok_def)
  have v1: "load_documents_from_directory example_fs example_reader_ok [2, 0] ''data'' =
      Inr \<lparr>documents = [3, 1, 2, 4],
           events = [Future_result 2, Future_result 0, Future_result 1], progress = 3\<rparr>"
    by (simp add: load_documents_from_directory_def load_tasks_def example_dirs r Let_def
        load_documents_from_single_directory_def handle_future_def)
  have v2: "load_documents_from_directory example_fs example_reader_ok [] ''data'' =
      Inr \<lparr>documents = [1, 2, 4, 3],
           events = [Future_result 0, Future_result 1, Future_result 2], progress = 3\<rparr>"
    by (simp add: load_documents_from_directory_def load_tasks_def example_dirs r Let_def
        load_documents_from_single_directory_def handle_future_def)
  note inst = load_all_succeed [OF h, of "[2, 0]" "[]"]
  obtain s s' where a: "load_documents_from_directory example_fs example_reader_ok [2, 0] ''data'' = Inr s"
    and b: "load_documents_from_directory example_fs example_reader_ok [] ''data'' = Inr s'"
    and c: "mset (documents s) =
        (\<Sum>d\<in>#mset (get_all_directories example_fs ''data''). mset (docs_of (example_reader_ok d)))"
    and d: "mset (documents s') = mset (documents s)"
    using inst by blast
  have "mset (rev (map fst (submit_all example_reader_ok 0 (get_all_directories example_fs ''data'')))) =
      mset (map fst (submit_all example_reader_ok 0 (get_all_directories example_fs ''data'')))"
    by (rule mset_rev)
  then have e: "\<exists>sched. as_completed sched
      (map fst (submit_all example_reader_ok 0 (get_all_directories example_fs ''data''))) =
      rev (map fst (submit_all example_reader_ok 0 (get_all_directories example_fs ''data'')))"
    using inst by blast
  have "documents s = [3, 1, 2, 4]" using a v1 by auto
  moreover have "documents s' = [1, 2, 4, 3]" using b v2 by auto
  ultimately show ?thesis using r a b c d e by blast
qed

text \<open>
  Claim C1. When the reader raises on exactly one of the enumerated directories, the loader
  returns (no error escapes it), its documents are the union of the other results, and it
  prints one line, which names that directory and the error.
\<close>

theorem load_one_failure:
  assumes "get_all_directories fs directory = pre @ bad # post"
    and "reader bad = Raised e"
    and "\<forall>d \<in> set (pre @ post). \<exists>docs. reader d = Returned docs"
  shows "\<exists>s. load_documents_from_directory fs reader sched directory = Inr s \<and>
           mset (documents s) = (\<Sum>d\<in>#mset (pre @ post). mset (docs_of (reader d))) \<and>
           printed (events s) =
             [''Error loading documents from directory '' @ bad @ '': '' @ str e]"
proof -
  obtain s where s: "load_documents_from_directory fs reader sched directory = Inr s"
    and docs: "mset (documents s) =
       (\<Sum>d\<in>#mset (get_all_directories fs directory). mset (docs_of (reader d)))"
    and prn: "mset (printed (events s)) =
       (\<Sum>d\<in>#mset (get_all_directories fs directory). mset (diagnostic_of d (reader d)))"
    using load_summary [of fs reader sched directory] by blast
  have split: "mset (get_all_directories fs directory) = add_mset bad (mset (pre @ post))"
    using assms(1) by simp
  have "mset (documents s) = (\<Sum>d\<in>#mset (pre @ post). mset (docs_of (reader d)))"
    unfolding docs split using assms(2) by simp
  moreover have "(\<Sum>d\<in>#mset (pre @ post). mset (diagnostic_of d (reader d))) = {#}"
  proof -
    have "\<forall>d \<in># mset (pre @ post). mset (diagnostic_of d (reader d)) = {#}"
    proof
      fix d assume "d \<in># mset (pre @ post)"
      then obtain docs where "reader d = Returned docs" using assms(3) by auto
      then show "mset (diagnostic_of d (reader d)) = {#}" by simp
    qed
    then have "image_mset (\<lambda>d. mset (diagnostic_of d (reader d))) (mset (pre @ post)) =
        image_mset (\<lambda>d. {#}) (mset (pre @ post))"
      by (intro image_mset_cong) simp
    then show ?thesis by simp
  qed
  then have "mset (printed (events s)) = {#error_line bad e#}"
    unfolding prn split using assms(2) by simp
  then have "printed (events s) = [error_line bad e]"
    by (metis mset_single_iff_right mset.simps(1,2))
  ultimately show ?thesis using s by (simp add: error_line_def)
qed

theorem load_one_failure_witness:
  "get_all_directories example_fs ''data'' = [''data/a''] @ ''data/b'' # [''data/a/c''] \<and>
   example_reader ''data/b'' = Raised (Exception ''PermissionError'' ''[Errno 13] Permission denied'') \<and>
   example_reader ''data/a'' = Returned [1, 2] \<and>
   example_reader ''data/a/c'' = Returned [3] \<and>
   (\<exists>s. load_documents_from_directory example_fs example_reader [1] ''data'' = Inr s \<and>
      documents s = [1, 2, 3] \<and>
      mset (documents s) =
        (\<Sum>d\<in>#mset ([''data/a''] @ [''data/a/c'']). mset (docs_of (example_reader d))) \<and>
      printed (events s) =
        [''Error loading documents from directory data/b: [Errno 13] Permission denied''])"
proof -
  have h1: "get_all_directories example_fs ''data'' = [''data/a''] @ ''data/b'' # [''data/a/c'']"
    by (simp add: example_dirs)
  have h2: "example_reader ''data/b'' =
      Raised (Exception ''PermissionError'' ''[Errno 13] Permission denied'')"
    by (simp add: example_reader_def)
  have r: "example_reader ''data/a'' = Returned [1, 2]" "example_reader ''data/a/c'' = Returned [3]"
    by (simp_all add: example_reader_def)
  have h3: "\<forall>d \<in> set ([''data/a''] @ [''data/a/c'']). \<exists>docs. example_reader d = Returned docs"
    using r by simp
  have v: "load_documents_from_directory example_fs example_reader [1] ''data'' =
      Inr \<lparr>documents = [1, 2, 3],
           events = [Future_result 1,
             Print ''Error loading documents from directory data/b: [Errno 13] Permission denied'',
             Future_result 0, Future_result 2],
           progress = 3\<rparr>"
    by (simp add: load_documents_from_directory_def load_tasks_def example_dirs r h2 Let_def
        load_documents_from_single_directory_def handle_future_def error_line_def)
  obtain s where a: "load_documents_from_directory example_fs example_reader [1] ''data'' = Inr s"
    and b: "mset (documents s) =
        (\<Sum>d\<in>#mset ([''data/a''] @ [''data/a/c'']). mset (docs_of (example_reader d)))"
    and c: "printed (events s) =
        [''Error loading documents from directory '' @ ''data/b'' @ '': '' @
         str (Exception ''PermissionError'' ''[Errno 13] Permission denied'')]"
    using load_one_failure [OF h1 h2 h3, of "[1]"] by blast
  have "documents s = [1, 2, 3]" using a v by auto
  moreover have "printed (events s) =
      [''Error loading documents from directory data/b: [Errno 13] Permission denied'']"
    using c by simp
  ultimately show ?thesis using h1 h2 r a b by blast
qed


section \<open>The progress counter\<close>

lemma handle_future_progress: "handle_future ftd f s = Inr s' \<Longrightarrow> progress s' = progress s"
  by (auto simp: handle_future_def Let_def split: outcome.splits option.splits)

lemma for_completed_progress:
  "for_completed ftd cs s = Inr s' \<Longrightarrow> progress s' = progress s + length cs"
proof (induction cs arbitrary: s)
  case Nil
  then show ?case by simp
next
  case (Cons f cs)
  then obtain s1 where h: "handle_future ftd f s = Inr s1"
    and r: "for_completed ftd cs (s1\<lparr>progress := Suc (progress s1)\<rparr>) = Inr s'"
    by (auto split: sum.splits)
  have "progress s' = progress (s1\<lparr>progress := Suc (progress s1)\<rparr>) + length cs"
    using r by (rule Cons.IH)
  then show ?case using handle_future_progress [OF h] by simp
qed

text \<open>
  Claim C6. The counter advances by one for each future the loop takes, whether its task
  returned or raised, and after the loop it is the number of enumerated directories, which
  is the total the progress bar was created with.
\<close>

theorem progress_reaches_total:
  "(for_completed ftd cs s0 = Inr s1 \<longrightarrow> progress s1 = progress s0 + length cs) \<and>
   (\<exists>s. load_documents_from_directory fs reader sched directory = Inr s \<and>
      progress s = length (get_all_directories fs directory) \<and>
      progress s = progress_total fs reader directory \<and>
      length (filter is_future_result (events s)) = length (get_all_directories fs directory))"
proof -
  have total: "progress_total fs reader directory = length (get_all_directories fs directory)"
    using submit_all_snd [of reader 0 "get_all_directories fs directory"]
    unfolding progress_total_def by (metis length_map)
  show ?thesis
    using for_completed_progress [of ftd cs s0 s1] load_summary [of fs reader sched directory] total
    by auto
qed

theorem progress_reaches_total_witness:
  "for_completed [] [\<lparr>fid = 0, result = Returned [5::nat]\<rparr>]
     \<lparr>documents = [], events = [], progress = 4\<rparr> =
     Inr \<lparr>documents = [5], events = [Future_result 0], progress = 5\<rparr> \<and>
   progress \<lparr>documents = [5::nat], events = [Future_result 0], progress = 5\<rparr> = 4 + length [\<lparr>fid = 0, result = Returned [5::nat]\<rparr>] \<and>
   failing_reader ''data/a'' = Raised (Exception ''OSError'' ''unreadable'') \<and>
   (\<exists>s. load_documents_from_directory example_fs failing_reader [1] ''data'' = Inr s \<and>
      documents s = [] \<and> length (printed (events s)) = 3 \<and>
      progress s = 3 \<and> length (get_all_directories example_fs ''data'') = 3 \<and>
      progress_total example_fs failing_reader ''data'' = 3)"
proof -
  have v0: "for_completed [] [\<lparr>fid = 0, result = Returned [5::nat]\<rparr>]
     \<lparr>documents = [], events = [], progress = 4\<rparr> =
     Inr \<lparr>documents = [5], events = [Future_result 0], progress = 5\<rparr>"
    by (simp add: handle_future_def)
  have p0: "progress \<lparr>documents = [5::nat], events = [Future_result 0], progress = 5\<rparr> =
      4 + length [\<lparr>fid = 0, result = Returned [5::nat]\<rparr>]"
    using progress_reaches_total [of "[]" "[\<lparr>fid = 0, result = Returned [5::nat]\<rparr>]"
        "\<lparr>documents = [], events = [], progress = 4\<rparr>"
        "\<lparr>documents = [5], events = [Future_result 0], progress = 5\<rparr>"] v0
    by simp
  have r: "\<And>d. failing_reader d = Raised (Exception ''OSError'' ''unreadable'')"
    by (simp add: failing_reader_def)
  have v: "load_documents_from_directory example_fs failing_reader [1] ''data'' =
      Inr \<lparr>documents = [],
           events = [Future_result 1,
             Print ''Error loading documents from directory data/b: unreadable'',
             Future_result 0,
             Print ''Error loading documents from directory data/a: unreadable'',
             Future_result 2,
             Print ''Error loading documents from directory data/a/c: unreadable''],
           progress = 3\<rparr>"
    by (simp add: load_documents_from_directory_def load_tasks_def example_dirs r Let_def
        load_documents_from_single_directory_def handle_future_def error_line_def)
  obtain s where a: "load_documents_from_directory example_fs failing_reader [1] ''data'' = Inr s"
    and b: "progress s = length (get_all_directories example_fs ''data'')"
    and c: "progress s = progress_total example_fs failing_reader ''data''"
    using progress_reaches_total [of _ _ _ _ example_fs failing_reader "[1]" "''data''"] by blast
  have s: "s = \<lparr>documents = [],
           events = [Future_result 1,
             Print ''Error loading documents from directory data/b: unreadable'',
             Future_result 0,
             Print ''Error loading documents from directory data/a: unreadable'',
             Future_result 2,
             Print ''Error loading documents from directory data/a/c: unreadable''],
           progress = 3\<rparr>"
    using a v by simp
  have "documents s = []" "length (printed (events s)) = 3" "progress s = 3"
    unfolding s by (simp_all add: printed_def)
  moreover have "length (get_all_directories example_fs ''data'') = 3"
    "progress_total example_fs failing_reader ''data'' = 3"
    using b c \<open>progress s = 3\<close> by simp_all
  ultimately show ?thesis using v0 p0 r a by blast
qed


section \<open>The root directory itself\<close>

lemma submit_all_cong:
  "\<forall>d \<in> set ds. reader' d = reader d \<Longrightarrow> submit_all reader' k ds = submit_all reader k ds"
  by (induction ds arbitrary: k) (simp_all add: load_documents_from_single_directory_def)

lemma load_tasks_Nil:
  "load_tasks reader sched [] = Inr \<lparr>documents = [], events = [], progress = 0\<rparr>"
  by (simp add: load_tasks_def)

lemma rel_dirs_flat: "\<forall>e \<in> set es. snd e = File \<Longrightarrow> rel_dirs (Dir es) = []"
proof -
  assume "\<forall>e \<in> set es. snd e = File"
  then have "filter (\<lambda>e. is_dir (snd e)) es = []" by (induction es) auto
  then show ?thesis by (simp add: dirs_of_def)
qed

text \<open>
  Claim C8. The root is not among the directories submitted to the loader, which are the
  enumerated ones; so what the reader would find in the root itself has no effect on the
  result, and a root that holds files only yields no document.
\<close>

theorem root_files_never_loaded:
  assumes "fs directory = Some root" and "wf_node root"
  shows "directory \<notin> set (get_all_directories fs directory) \<and>
         map snd (submit_all reader 0 (get_all_directories fs directory)) =
           get_all_directories fs directory \<and>
         ((\<forall>d. d \<noteq> directory \<longrightarrow> reader' d = reader d) \<longrightarrow>
            load_documents_from_directory fs reader' sched directory =
            load_documents_from_directory fs reader sched directory) \<and>
         ((\<exists>es. root = Dir es \<and> (\<forall>e \<in> set es. snd e = File)) \<longrightarrow>
            load_documents_from_directory fs reader sched directory =
              Inr \<lparr>documents = [], events = [], progress = 0\<rparr>)"
proof -
  have out: "directory \<notin> set (get_all_directories fs directory)"
    using root_not_listed [of fs directory root] assms by simp
  have same: "load_documents_from_directory fs reader' sched directory =
      load_documents_from_directory fs reader sched directory"
    if "\<forall>d. d \<noteq> directory \<longrightarrow> reader' d = reader d"
  proof -
    have "\<forall>d \<in> set (get_all_directories fs directory). reader' d = reader d"
      using that out by metis
    then have "submit_all reader' 0 (get_all_directories fs directory) =
        submit_all reader 0 (get_all_directories fs directory)"
      by (rule submit_all_cong)
    then show ?thesis by (simp add: load_documents_from_directory_def load_tasks_def)
  qed
  have flat: "load_documents_from_directory fs reader sched directory =
      Inr \<lparr>documents = [], events = [], progress = 0\<rparr>"
    if "\<exists>es. root = Dir es \<and> (\<forall>e \<in> set es. snd e = File)"
  proof -
    have "rel_dirs root = []" using that rel_dirs_flat by blast
    then have "get_all_directories fs directory = []"
      using get_all_directories_rel_dirs [of fs directory root] assms(1) by simp
    then show ?thesis by (simp add: load_documents_from_directory_def load_tasks_Nil)
  qed
  show ?thesis using out same flat by (simp add: submit_all_snd)
qed

theorem root_files_never_loaded_witness:
  "flat_fs ''data'' = Some flat_tree \<and> wf_node flat_tree \<and>
   root_reader ''data'' = Returned [7, 8] \<and>
   ''data'' \<notin> set (get_all_directories flat_fs ''data'') \<and>
   load_documents_from_directory flat_fs root_reader [] ''data'' =
     Inr \<lparr>documents = [], events = [], progress = 0\<rparr> \<and>
   example_fs ''data'' = Some example_tree \<and> wf_node example_tree \<and>
   example_reader ''data'' = Returned [3] \<and>
   (example_reader(''data'' := Returned [7, 8])) ''data'' = Returned [7, 8] \<and>
   load_documents_from_directory example_fs (example_reader(''data'' := Returned [7, 8])) [1] ''data'' =
   load_documents_from_directory example_fs example_reader [1] ''data''"
proof -
  have f1: "flat_fs ''data'' = Some flat_tree" by (simp add: flat_fs_def)
  have f2: "wf_node flat_tree" by (simp add: flat_tree_def wf_name_def sep_def)
  have f3: "\<exists>es. flat_tree = Dir es \<and> (\<forall>e \<in> set es. snd e = File)"
    by (simp add: flat_tree_def)
  have e1: "example_fs ''data'' = Some example_tree" by (simp add: example_fs_def)
  have e2: "wf_node example_tree" by (simp add: example_tree_def wf_name_def sep_def)
  have e3: "\<forall>d. d \<noteq> ''data'' \<longrightarrow> (example_reader(''data'' := Returned [7, 8])) d = example_reader d"
    by simp
  have r: "root_reader ''data'' = Returned [7, 8]" "example_reader ''data'' = Returned [3]"
    by (simp_all add: root_reader_def example_reader_def)
  show ?thesis
    using root_files_never_loaded [where fs = flat_fs and directory = "''data''" and root = flat_tree
        and reader = root_reader and reader' = root_reader and sched = "[]"]
      root_files_never_loaded [where fs = example_fs and directory = "''data''" and root = example_tree
        and reader = example_reader and reader' = "example_reader(''data'' := Returned [7, 8])"
        and sched = "[1]"]
      f1 f2 f3 e1 e2 e3 r
    by simp
qed

section \<open>A root that does not exist\<close>

text \<open>
  Claim C9. For a root path that does not exist, \<open>get_all_directories\<close> returns the
  empty list and raises nothing; the loader has no task, and \<open>main\<close> goes on to build
  the index of no documents and to the loop.
\<close>

theorem missing_root_yields_nothing:
  assumes "fs directory = None"
  shows "get_all_directories fs directory = [] \<and>
         progress_total fs reader directory = 0 \<and>
         load_documents_from_directory fs reader sched directory =
           Inr \<lparr>documents = [], events = [], progress = 0\<rparr> \<and>
         main fs reader sched engine inputs directory model_name =
           (case interactive_loop (engine []) inputs of
              (evs, status) \<Rightarrow>
                ([Set_embed_model ''BAAI/bge-base-en-v1.5'', Set_llm model_name 360,
                  From_documents [], As_query_engine True 5] @ evs, status))"
  using assms
  by (simp add: get_all_directories_missing progress_total_def load_documents_from_directory_def
      load_tasks_Nil main_def)

theorem missing_root_yields_nothing_witness:
  "example_fs ''nowhere'' = None \<and>
   get_all_directories example_fs ''nowhere'' = [] \<and>
   progress_total example_fs example_reader ''nowhere'' = 0 \<and>
   load_documents_from_directory example_fs example_reader [] ''nowhere'' =
     Inr \<lparr>documents = [], events = [], progress = 0\<rparr> \<and>
   main example_fs example_reader [] (\<lambda>docs q. ''answer'') [''exit''] ''nowhere'' ''llama3'' =
     ([Set_embed_model ''BAAI/bge-base-en-v1.5'', Set_llm ''llama3'' 360,
       From_documents [], As_query_engine True 5, Prompt prompt_text], None)"
proof -
  have h: "example_fs ''nowhere'' = None" by (simp add: example_fs_def)
  have l: "lower ''exit'' = ''exit''" by (simp add: lower_def lower_char_def)
  have "interactive_loop (\<lambda>q. ''answer'') [''exit''] =
      ([Prompt prompt_text :: nat event], None)"
    by (simp add: loop_body_def l)
  then show ?thesis
    using missing_root_yields_nothing [where fs = example_fs and directory = "''nowhere''"
        and reader = example_reader and sched = "[]" and engine = "\<lambda>docs q. ''answer''"
        and inputs = "[''exit'']" and model_name = "''llama3''"] h
    by simp
qed

section \<open>The exit word\<close>

lemma lower_char_code: "(of_char (lower_char c) :: nat) =
   (if 65 \<le> (of_char c :: nat) \<and> (of_char c :: nat) \<le> 90 then of_char c + 32 else of_char c)"
  by (simp add: lower_char_def Let_def)

lemma upper_char_code: "(of_char (upper_char c) :: nat) =
   (if 97 \<le> (of_char c :: nat) \<and> (of_char c :: nat) \<le> 122 then of_char c - 32 else of_char c)"
proof (cases "97 \<le> (of_char c :: nat) \<and> (of_char c :: nat) \<le> 122")
  case True
  then have "(of_char c :: nat) - 32 < 256" by arith
  then have "((of_char c :: nat) - 32) mod 256 = of_char c - 32" by (rule mod_less)
  then show ?thesis using True by (simp add: upper_char_def Let_def)
next
  case False
  then show ?thesis by (auto simp: upper_char_def Let_def)
qed

lemma char_eq_iff_nat: "c = d \<longleftrightarrow> (of_char c :: nat) = of_char d"
  by simp

lemma same_letter_lower:
  assumes "97 \<le> (of_char d :: nat)" "(of_char d :: nat) \<le> 122"
  shows "lower_char c = d \<longleftrightarrow> same_letter c d"
  unfolding same_letter_def char_eq_iff_nat [of "lower_char c"] char_eq_iff_nat [of c]
    char_eq_iff_nat [of "upper_char c"] lower_char_code upper_char_code
  using assms by (auto split: if_splits)


lemma lower_eq_exit: "lower q = ''exit'' \<longleftrightarrow> caseless_eq q ''exit''"
proof -
  have e: "\<And>c. lower_char c = CHR ''e'' \<longleftrightarrow> same_letter c (CHR ''e'')"
    by (rule same_letter_lower) simp_all
  have x: "\<And>c. lower_char c = CHR ''x'' \<longleftrightarrow> same_letter c (CHR ''x'')"
    by (rule same_letter_lower) simp_all
  have i: "\<And>c. lower_char c = CHR ''i'' \<longleftrightarrow> same_letter c (CHR ''i'')"
    by (rule same_letter_lower) simp_all
  have t: "\<And>c. lower_char c = CHR ''t'' \<longleftrightarrow> same_letter c (CHR ''t'')"
    by (rule same_letter_lower) simp_all
  show ?thesis
    unfolding lower_def caseless_eq_def
    by (auto simp: list_all2_Cons2 e x i t)
qed

section \<open>One pass through the loop\<close>

text \<open>
  Claim C4. An input line equal to \<^verbatim>\<open>exit\<close> up to the case of its letters ends the
  loop: the body breaks with no event, so no query reaches the engine, and the lines
  after it are not read.
\<close>

theorem exit_terminates:
  assumes "caseless_eq query ''exit''"
  shows "loop_body query_engine query = (TERMINATED, ([] :: 'doc event list)) \<and>
         interactive_loop query_engine (query # inputs) = ([Prompt prompt_text :: 'doc event], None)"
  using assms by (simp add: loop_body_def lower_eq_exit)

theorem exit_terminates_witness:
  "caseless_eq ''EXIT'' ''exit'' \<and> caseless_eq ''Exit'' ''exit'' \<and>
   loop_body (constant_engine []) ''EXIT'' = (TERMINATED, ([] :: nat event list)) \<and>
   interactive_loop (constant_engine []) [''EXIT'', ''why''] = ([Prompt prompt_text :: nat event], None) \<and>
   loop_body (constant_engine []) ''Exit'' = (TERMINATED, ([] :: nat event list)) \<and>
   interactive_loop (constant_engine []) [''Exit''] = ([Prompt prompt_text :: nat event], None)"
proof -
  have h1: "caseless_eq ''EXIT'' ''exit''" by code_simp
  have h2: "caseless_eq ''Exit'' ''exit''" by code_simp
  have a: "loop_body (constant_engine []) ''EXIT'' = (TERMINATED, ([] :: nat event list)) \<and>
     interactive_loop (constant_engine []) [''EXIT'', ''why''] = ([Prompt prompt_text :: nat event], None)"
    by (rule exit_terminates [OF h1])
  have b: "loop_body (constant_engine []) ''Exit'' = (TERMINATED, ([] :: nat event list)) \<and>
     interactive_loop (constant_engine []) [''Exit''] = ([Prompt prompt_text :: nat event], None)"
    by (rule exit_terminates [OF h2])
  show ?thesis using h1 h2 a b by blast
qed

lemma interactive_loop_starts:
  "\<exists>(rest :: 'doc event list) status.
     interactive_loop query_engine inputs = (Prompt prompt_text # rest, status)"
  by (cases inputs) (auto simp: loop_body_def split: prod.splits)

lemma interactive_loop_query:
  assumes "lower query \<noteq> ''exit''"
  shows "\<exists>(rest :: 'doc event list) status.
           interactive_loop query_engine inputs = (Prompt prompt_text # rest, status) \<and>
           interactive_loop query_engine (query # inputs) =
             (Prompt prompt_text # Query query # Print_response_stream (query_engine query) #
                Print [] # Prompt prompt_text # rest, status)"
proof -
  obtain rest :: "'doc event list" and status
    where r: "interactive_loop query_engine inputs = (Prompt prompt_text # rest, status)"
    using interactive_loop_starts by blast
  then have "interactive_loop query_engine (query # inputs) =
             (Prompt prompt_text # Query query # Print_response_stream (query_engine query) #
                Print [] # Prompt prompt_text # rest, status)"
    using assms by (simp add: loop_body_def)
  then show ?thesis using r by blast
qed

text \<open>
  Claim C5. A line that is not empty and not \<^verbatim>\<open>exit\<close> up to case makes one pass: one
  query to the engine, with that line; the streaming of its response; one call of
  \<^verbatim>\<open>print()\<close>; and then the next prompt.
\<close>

theorem other_input_queries_once:
  assumes "query \<noteq> []" and "\<not> caseless_eq query ''exit''"
  shows "loop_body query_engine query =
           (AWAITING_INPUT,
            [Query query, Print_response_stream (query_engine query), Print [] :: 'doc event]) \<and>
         (\<exists>(rest :: 'doc event list) status.
            interactive_loop query_engine inputs = (Prompt prompt_text # rest, status) \<and>
            interactive_loop query_engine (query # inputs) =
              (Prompt prompt_text # Query query # Print_response_stream (query_engine query) #
                 Print [] # Prompt prompt_text # rest, status))"
proof -
  have l: "lower query \<noteq> ''exit''" using assms(2) by (simp add: lower_eq_exit)
  then have "loop_body query_engine query =
           (AWAITING_INPUT,
            [Query query, Print_response_stream (query_engine query), Print [] :: 'doc event])"
    by (simp add: loop_body_def)
  then show ?thesis using interactive_loop_query [OF l] by blast
qed

theorem other_input_queries_once_witness:
  "''exits'' \<noteq> [] \<and> \<not> caseless_eq ''exits'' ''exit'' \<and>
   loop_body (constant_engine []) ''exits'' =
     (AWAITING_INPUT, [Query ''exits'', Print_response_stream ''answer'', Print [] :: nat event]) \<and>
   interactive_loop (constant_engine []) [''exits'', ''exit''] =
     ([Prompt prompt_text, Query ''exits'', Print_response_stream ''answer'', Print [],
       Prompt prompt_text :: nat event], None)"
proof -
  have h1: "''exits'' \<noteq> []" by simp
  have h2: "\<not> caseless_eq ''exits'' ''exit''" by (simp add: caseless_eq_def)
  have l: "lower ''exit'' = ''exit''" by (simp add: lower_def lower_char_def)
  have r: "interactive_loop (constant_engine []) [''exit''] = ([Prompt prompt_text :: nat event], None)"
    by (simp add: loop_body_def l)
  have c: "constant_engine [] ''exits'' = ''answer''" by (simp add: constant_engine_def)
  have inst: "loop_body (constant_engine []) ''exits'' =
           (AWAITING_INPUT,
            [Query ''exits'', Print_response_stream (constant_engine [] ''exits''), Print [] :: nat event]) \<and>
         (\<exists>rest status.
            interactive_loop (constant_engine []) [''exit''] = (Prompt prompt_text # rest, status) \<and>
            interactive_loop (constant_engine []) [''exits'', ''exit''] =
              (Prompt prompt_text # Query ''exits'' # Print_response_stream (constant_engine [] ''exits'') #
                 Print [] # Prompt prompt_text # (rest :: nat event list), status))"
    by (rule other_input_queries_once [OF h1 h2])
  then show ?thesis using h1 h2 unfolding r c by auto
qed

text \<open>
  Claim C10. The empty line is no exception: it is sent to the engine as a query like any
  other line, and the loop goes on.
\<close>

theorem empty_input_is_a_query:
  "loop_body query_engine [] =
     (AWAITING_INPUT, [Query [], Print_response_stream (query_engine []), Print [] :: 'doc event]) \<and>
   (\<exists>(rest :: 'doc event list) status.
      interactive_loop query_engine inputs = (Prompt prompt_text # rest, status) \<and>
      interactive_loop query_engine ([] # inputs) =
        (Prompt prompt_text # Query [] # Print_response_stream (query_engine []) #
           Print [] # Prompt prompt_text # rest, status))"
proof -
  have l: "lower [] \<noteq> ''exit''" by (simp add: lower_def)
  then have "loop_body query_engine [] =
     (AWAITING_INPUT, [Query [], Print_response_stream (query_engine []), Print [] :: 'doc event])"
    by (simp add: loop_body_def)
  then show ?thesis using interactive_loop_query [OF l] by blast
qed

theorem empty_input_is_a_query_witness:
  "loop_body (constant_engine []) [] =
     (AWAITING_INPUT, [Query [], Print_response_stream ''answer'', Print [] :: nat event]) \<and>
   interactive_loop (constant_engine []) [[], ''exit''] =
     ([Prompt prompt_text, Query [], Print_response_stream ''answer'', Print [],
       Prompt prompt_text :: nat event], None)"
proof -
  have l: "lower ''exit'' = ''exit''" by (simp add: lower_def lower_char_def)
  have r: "interactive_loop (constant_engine []) [''exit''] = ([Prompt prompt_text :: nat event], None)"
    by (simp add: loop_body_def l)
  have c: "constant_engine [] [] = ''answer''" by (simp add: constant_engine_def)
  have inst: "loop_body (constant_engine []) [] =
     (AWAITING_INPUT, [Query [], Print_response_stream (constant_engine [] []), Print [] :: nat event]) \<and>
   (\<exists>rest status.
      interactive_loop (constant_engine []) [''exit''] = (Prompt prompt_text # rest, status) \<and>
      interactive_loop (constant_engine []) ([] # [''exit'']) =
        (Prompt prompt_text # Query [] # Print_response_stream (constant_engine [] []) #
           Print [] # Prompt prompt_text # (rest :: nat event list), status))"
    by (rule empty_input_is_a_query)
  then show ?thesis unfolding r c by auto
qed

section \<open>The order of a run\<close>

lemma loop_events_kind:
  "e \<in> set (fst (interactive_loop query_engine inputs :: 'doc event list \<times> error option)) \<Longrightarrow>
   \<not> is_build e \<and> \<not> is_future_result e"
proof (induction inputs)
  case Nil
  then show ?case by simp
next
  case (Cons q inputs)
  show ?case
  proof (cases "lower q = ''exit''")
    case True
    then show ?thesis using Cons.prems by (simp add: loop_body_def)
  next
    case False
    then show ?thesis using Cons by (auto simp: loop_body_def case_prod_beta)
  qed
qed

lemma task_events_kind: "e \<in> set (task_events p) \<Longrightarrow> \<not> is_build e \<and> \<not> is_query e"
  by (cases "result (fst p)") (auto simp: task_events_def)

lemma loader_events_kind:
  assumes "load_documents_from_directory fs reader sched directory = Inr s"
    and "e \<in> set (events s)"
  shows "\<not> is_build e \<and> \<not> is_query e"
proof -
  obtain ps where "load_tasks reader sched (get_all_directories fs directory) =
       Inr \<lparr>documents = concat (map (\<lambda>p. docs_of (reader (snd p))) ps),
            events = concat (map task_events ps),
            progress = length (get_all_directories fs directory)\<rparr>"
    using load_tasks_result [of reader "get_all_directories fs directory" sched] by blast
  then have "events s = concat (map task_events ps)"
    using assms(1) by (auto simp: load_documents_from_directory_def)
  then obtain p where "e \<in> set (task_events p)" using assms(2) by auto
  then show ?thesis by (rule task_events_kind)
qed

lemma earlier_part:
  assumes "tr = xs @ ys"
    and "\<forall>e \<in> set xs. \<not> Q e" and "\<forall>e \<in> set ys. \<not> P e"
    and "i < length tr" "j < length tr" "P (tr ! i)" "Q (tr ! j)"
  shows "i < j"
proof -
  have "i < length xs"
  proof (rule ccontr)
    assume "\<not> i < length xs"
    then have "tr ! i = ys ! (i - length xs)" "i - length xs < length ys"
      using assms(1,4) by (simp_all add: nth_append)
    then have "tr ! i \<in> set ys" by (metis nth_mem)
    then show False using assms(3,6) by blast
  qed
  moreover have "\<not> j < length xs"
  proof
    assume "j < length xs"
    then have "tr ! j = xs ! j" using assms(1) by (simp add: nth_append)
    then have "tr ! j \<in> set xs" using \<open>j < length xs\<close> by (metis nth_mem)
    then show False using assms(2,7) by blast
  qed
  ultimately show ?thesis by simp
qed

text \<open>
  Claim C7. In the trace of a run there is one building of the index, from the documents
  the loader returned; the result of every future is taken before it; every query comes
  after it.
\<close>

theorem index_built_once:
  "\<exists>s tr status.
     load_documents_from_directory fs reader sched data_folder = Inr s \<and>
     main fs reader sched engine inputs data_folder model_name = (tr, status) \<and>
     filter is_build tr = [From_documents (documents s)] \<and>
     length (filter is_future_result tr) = length (get_all_directories fs data_folder) \<and>
     (\<forall>i j. i < length tr \<and> j < length tr \<and> is_future_result (tr ! i) \<and> is_build (tr ! j)
        \<longrightarrow> i < j) \<and>
     (\<forall>i j. i < length tr \<and> j < length tr \<and> is_build (tr ! i) \<and> is_query (tr ! j)
        \<longrightarrow> i < j)"
proof -
  obtain s where s: "load_documents_from_directory fs reader sched data_folder = Inr s"
    and cnt: "length (filter is_future_result (events s)) = length (get_all_directories fs data_folder)"
    using load_summary [of fs reader sched data_folder] by blast
  obtain evs :: "'a event list" and status
    where l: "interactive_loop (engine (documents s)) inputs = (evs, status)"
    by (cases "interactive_loop (engine (documents s)) inputs :: 'a event list \<times> error option") blast
  let ?calls = "[Set_embed_model ''BAAI/bge-base-en-v1.5'', Set_llm model_name 360,
                 From_documents (documents s), As_query_engine True 5]"
  let ?tr = "events s @ ?calls @ evs"
  have m: "main fs reader sched engine inputs data_folder model_name = (?tr, status)"
    using s l by (simp add: main_def)
  have ld: "\<forall>e \<in> set (events s). \<not> is_build e \<and> \<not> is_query e"
    using loader_events_kind [OF s] by blast
  have lp: "\<forall>e \<in> set evs. \<not> is_build e \<and> \<not> is_future_result e"
  proof
    fix e assume "e \<in> set evs"
    then have "e \<in> set (fst (interactive_loop (engine (documents s)) inputs :: 'a event list \<times> error option))"
      using l by simp
    then show "\<not> is_build e \<and> \<not> is_future_result e" by (rule loop_events_kind)
  qed
  have f1: "filter is_build (events s) = []" using ld by (simp add: filter_empty_conv)
  have f2: "filter is_build evs = []" using lp by (simp add: filter_empty_conv)
  have f3: "filter is_future_result evs = []" using lp by (simp add: filter_empty_conv)
  have b: "filter is_build ?tr = [From_documents (documents s)]"
    using f1 f2 by simp
  have c: "length (filter is_future_result ?tr) = length (get_all_directories fs data_folder)"
    using cnt f3 by simp
  have o1: "i < j" if "i < length ?tr" "j < length ?tr" "is_future_result (?tr ! i)" "is_build (?tr ! j)"
    for i j
  proof (rule earlier_part [of ?tr "events s" "?calls @ evs" is_build is_future_result i j])
    show "?tr = events s @ ?calls @ evs" by simp
    show "\<forall>e \<in> set (events s). \<not> is_build e" using ld by blast
    show "\<forall>e \<in> set (?calls @ evs). \<not> is_future_result e" using lp by auto
  qed (use that in simp_all)
  have o2: "i < j" if "i < length ?tr" "j < length ?tr" "is_build (?tr ! i)" "is_query (?tr ! j)"
    for i j
  proof (rule earlier_part [of ?tr "events s @ [Set_embed_model ''BAAI/bge-base-en-v1.5'',
        Set_llm model_name 360, From_documents (documents s)]" "As_query_engine True 5 # evs"
        is_query is_build i j])
    show "?tr = (events s @ [Set_embed_model ''BAAI/bge-base-en-v1.5'',
        Set_llm model_name 360, From_documents (documents s)]) @ As_query_engine True 5 # evs"
      by simp
    show "\<forall>e \<in> set (events s @ [Set_embed_model ''BAAI/bge-base-en-v1.5'',
        Set_llm model_name 360, From_documents (documents s)]). \<not> is_query e"
      using ld by auto
    show "\<forall>e \<in> set (As_query_engine True 5 # evs). \<not> is_build e" using lp by auto
  qed (use that in simp_all)
  show ?thesis
    using s m b c o1 o2 by (intro exI [of _ s] exI [of _ ?tr] exI [of _ status]) blast
qed


theorem index_built_once_witness:
  "main example_fs example_reader [1] constant_engine [''hello'', ''exit''] ''data'' ''llama3'' =
     (example_trace, None) \<and>
   filter is_build example_trace = [From_documents [1, 2, 3]] \<and>
   length (filter is_future_result example_trace) = length (get_all_directories example_fs ''data'') \<and>
   is_future_result (example_trace ! 3) \<and> is_build (example_trace ! 6) \<and>
   is_query (example_trace ! 9) \<and> (3 :: nat) < 6 \<and> (6 :: nat) < 9"
proof -
  have r: "example_reader ''data/a'' = Returned [1, 2]" "example_reader ''data/a/c'' = Returned [3]"
    "example_reader ''data/b'' = Raised (Exception ''PermissionError'' ''[Errno 13] Permission denied'')"
    by (simp_all add: example_reader_def)
  have ld: "load_documents_from_directory example_fs example_reader [1] ''data'' =
      Inr \<lparr>documents = [1, 2, 3],
           events = [Future_result 1,
             Print ''Error loading documents from directory data/b: [Errno 13] Permission denied'',
             Future_result 0, Future_result 2],
           progress = 3\<rparr>"
    by (simp add: load_documents_from_directory_def load_tasks_def example_dirs r Let_def
        load_documents_from_single_directory_def handle_future_def error_line_def)
  have lo: "lower ''exit'' = ''exit''" "lower ''hello'' \<noteq> ''exit''"
    by (simp_all add: lower_def lower_char_def)
  have v: "main example_fs example_reader [1] constant_engine [''hello'', ''exit''] ''data'' ''llama3'' =
     (example_trace, None)"
    unfolding main_def ld by (simp add: loop_body_def lo constant_engine_def example_trace_def)
  obtain s tr status
    where m: "main example_fs example_reader [1] constant_engine [''hello'', ''exit''] ''data'' ''llama3'' =
        (tr, status)"
      and l: "load_documents_from_directory example_fs example_reader [1] ''data'' = Inr s"
      and b: "filter is_build tr = [From_documents (documents s)]"
      and c: "length (filter is_future_result tr) = length (get_all_directories example_fs ''data'')"
      and o1: "\<forall>i j. i < length tr \<and> j < length tr \<and> is_future_result (tr ! i) \<and> is_build (tr ! j)
        \<longrightarrow> i < j"
      and o2: "\<forall>i j. i < length tr \<and> j < length tr \<and> is_build (tr ! i) \<and> is_query (tr ! j)
        \<longrightarrow> i < j"
    using index_built_once [of example_fs example_reader "[1]" "''data''" constant_engine
        "[''hello'', ''exit'']" "''llama3''"]
    by blast
  have tr: "tr = example_trace" using m v by simp
  have ds: "documents s = [1, 2, 3]" using l ld by auto
  have k: "is_future_result (example_trace ! 3)" "is_build (example_trace ! 6)"
    "is_query (example_trace ! 9)" "length example_trace = 13"
    by (simp_all add: example_trace_def)
  have "(3 :: nat) < 6" using o1 [unfolded tr, rule_format, of 3 6] k by simp
  moreover have "(6 :: nat) < 9" using o2 [unfolded tr, rule_format, of 6 9] k by simp
  ultimately show ?thesis using v b c k ds unfolding tr by simp
qed

end
